theory Spec2Isabelle
  imports Main "HOL-Library.Word"
begin

section \<open>Buffer pool status and invalidation channels (BufferStatus.cpp)\<close>

text \<open>
  A shallow embedding of \<^verbatim>\<open>media/bufferpool/aidl/default/BufferStatus.cpp\<close>:
  the two wraparound comparisons, the observer's registry of status queues, the
  per-connection status channel and the invalidation listener. Mutation is explicit
  state passing: every operation takes the object and the caller's lists and returns
  them updated. Undefined behaviour of the C++ (a call through a null
  \<^verbatim>\<open>unique_ptr\<close>, \<^verbatim>\<open>front()\<close> of an empty list) is a value of type
  \<open>fault\<close>.
\<close>

subsection \<open>Identifiers and wraparound arithmetic\<close>

text \<open>
  \<^verbatim>\<open>BufferId\<close> is \<^verbatim>\<open>uint32_t\<close>; message ids are \<^verbatim>\<open>uint32_t\<close> as well. Subtraction on
  \<open>32 word\<close> wraps modulo \<open>2 ^ 32\<close> and \<open><\<close> is the unsigned order, as in the C++.
  \<^verbatim>\<open>ConnectionId\<close> is a 64-bit identifier whose typedef is not among the sources; it
  is only compared, never computed with, and the registry's key order is taken as
  the signed one (the log statements print it as \<^verbatim>\<open>long long\<close>).
\<close>

type_synonym BufferId = "32 word"
type_synonym ConnectionId = "64 word"
type_synonym TransactionId = "64 word"

definition isMessageLater :: "32 word \<Rightarrow> 32 word \<Rightarrow> bool" where
  "isMessageLater curMsgId prevMsgId =
     (curMsgId \<noteq> prevMsgId \<and> curMsgId - prevMsgId < prevMsgId - curMsgId)"

definition isBufferInRange :: "BufferId \<Rightarrow> BufferId \<Rightarrow> BufferId \<Rightarrow> bool" where
  "isBufferInRange fromId toId bufId =
     (if fromId < toId then fromId \<le> bufId \<and> bufId < toId
      else \<comment> \<open>wrap happens\<close> fromId \<le> bufId \<or> bufId < toId)"

definition kNumElementsInQueue :: nat where
  "kNumElementsInQueue = 1024 * 16"

definition kMinElementsToSyncInQueue :: nat where
  "kMinElementsToSyncInQueue = 128"

subsection \<open>Messages\<close>

text \<open>
  Modelled from the spec: the AIDL declarations of \<^verbatim>\<open>BufferStatus\<close>,
  \<^verbatim>\<open>BufferStatusMessage\<close>, \<^verbatim>\<open>BufferInvalidationMessage\<close> and \<^verbatim>\<open>ResultStatus\<close> are
  not among the sources; the fields and the values are those the specification's
  data model lists and BufferStatus.cpp assigns.
\<close>

datatype BufferStatus =
  NOT_USED | USED | TRANSFER_TO | TRANSFER_FROM | TRANSFER_TIMEOUT | INVALIDATION_ACK

record BufferStatusMessage =
  bufferId :: "32 word"
  status :: BufferStatus
  connectionId :: ConnectionId
  targetConnectionId :: ConnectionId
  transactionId :: TransactionId
  timestampUs :: "64 word"

record BufferInvalidationMessage =
  messageId :: "32 word"
  fromBufferId :: BufferId
  toBufferId :: BufferId

datatype ResultStatus = OK | NO_MEMORY | CRITICAL_ERROR

text \<open>
  Modelled from the spec: a default-constructed \<^verbatim>\<open>BufferStatusMessage\<close>
  (the declaration \<^verbatim>\<open>BufferStatusMessage message;\<close>), every field zero and the status
  the first enumerator. The release and the acknowledgement message assign three
  fields of it and send the other three as constructed.
\<close>

definition BufferStatusMessage_init :: BufferStatusMessage where
  "BufferStatusMessage_init =
     \<lparr>bufferId = 0, status = NOT_USED, connectionId = 0, targetConnectionId = 0,
      transactionId = 0, timestampUs = 0\<rparr>"

subsection \<open>The message queue primitive\<close>

text \<open>
  Modelled from the spec: the fast message queue is an external collaborator, given by
  its interface only (\<^verbatim>\<open>isValid\<close>, \<^verbatim>\<open>availableToRead\<close>, \<^verbatim>\<open>availableToWrite\<close>,
  \<^verbatim>\<open>read\<close>, \<^verbatim>\<open>write\<close>, a descriptor). The model is one attachment's view of a queue:
  its capacity and the records written and not yet read, oldest first. The
  sources guard every \<^verbatim>\<open>read\<close> and \<^verbatim>\<open>write\<close> against a call that fails although the
  count was confirmed available; \<open>fmq_refusals\<close> is the script of such failures,
  one entry per coming \<^verbatim>\<open>read\<close> or \<^verbatim>\<open>write\<close> call (\<open>True\<close>: that call is refused), an
  exhausted script refusing nothing. A write that fails writes nothing. A read
  that is refused although its count was available is the overflow
  \<^verbatim>\<open>getInvalidations\<close> tries a second time after (\<^verbatim>\<open>// Try twice in case of overflow\<close>):
  the reader has been overrun, its read position moves up to the write position
  and the records that were unread are lost to it. A read that asks for more than
  is available fails and leaves the records.
\<close>

record 'm fmq =
  fmq_isValid :: bool
  fmq_capacity :: nat
  fmq_unread :: "'m list"
  fmq_refusals :: "bool list"

definition availableToRead :: "'m fmq \<Rightarrow> nat" where
  "availableToRead q = length (fmq_unread q)"

definition availableToWrite :: "'m fmq \<Rightarrow> nat" where
  "availableToWrite q = fmq_capacity q - length (fmq_unread q)"

definition fmq_refused :: "'m fmq \<Rightarrow> bool" where
  "fmq_refused q = (case fmq_refusals q of [] \<Rightarrow> False | b # _ \<Rightarrow> b)"

definition fmq_called :: "'m fmq \<Rightarrow> 'm fmq" where
  "fmq_called q = q\<lparr>fmq_refusals := tl (fmq_refusals q)\<rparr>"

text \<open>\<^verbatim>\<open>write(&message, 1)\<close>: the result and the queue after the call.\<close>

definition fmq_write :: "'m fmq \<Rightarrow> 'm \<Rightarrow> bool \<times> 'm fmq" where
  "fmq_write q m =
     (if \<not> fmq_refused q \<and> 1 \<le> availableToWrite q
      then (True, (fmq_called q)\<lparr>fmq_unread := fmq_unread q @ [m]\<rparr>)
      else (False, fmq_called q))"

text \<open>\<^verbatim>\<open>read(data, n)\<close>: the records read (\<open>None\<close> when the call fails) and the queue after.\<close>

definition fmq_read :: "'m fmq \<Rightarrow> nat \<Rightarrow> 'm list option \<times> 'm fmq" where
  "fmq_read q n =
     (if fmq_refused q then (None, (fmq_called q)\<lparr>fmq_unread := []\<rparr>)
      else if n \<le> availableToRead q
      then (Some (take n (fmq_unread q)), (fmq_called q)\<lparr>fmq_unread := drop n (fmq_unread q)\<rparr>)
      else (None, fmq_called q))"

text \<open>\<^verbatim>\<open>read(&message, 1)\<close>: the one record read.\<close>

definition fmq_read_one :: "'m fmq \<Rightarrow> 'm option \<times> 'm fmq" where
  "fmq_read_one q =
     (case fmq_read q 1 of
        (Some (m # _), q') \<Rightarrow> (Some m, q')
      | (_, q') \<Rightarrow> (None, q'))"

text \<open>None of the coming \<open>n\<close> calls is refused.\<close>

definition fmq_serves :: "nat \<Rightarrow> 'm fmq \<Rightarrow> bool" where
  "fmq_serves n q = (True \<notin> set (take n (fmq_refusals q)))"

text \<open>
  A queue constructed from a capacity; \<open>shm_ok\<close> is whether the shared memory for it
  could be obtained, which is what \<^verbatim>\<open>isValid()\<close> reports.
\<close>

definition fmq_new :: "bool \<Rightarrow> nat \<Rightarrow> 'm fmq" where
  "fmq_new shm_ok n =
     \<lparr>fmq_isValid = shm_ok, fmq_capacity = n, fmq_unread = [], fmq_refusals = []\<rparr>"

text \<open>
  A descriptor stands for the queue that attaching to it yields (an attachment that
  fails yields a queue whose \<^verbatim>\<open>isValid()\<close> is false). Sharing of one queue between
  processes is outside the model.
\<close>

datatype 'm MQDescriptor = MQDescriptor "'m fmq"

definition dupeDesc :: "'m fmq \<Rightarrow> 'm MQDescriptor" where
  "dupeDesc q = MQDescriptor q"

fun fmq_attach :: "'m MQDescriptor \<Rightarrow> 'm fmq" where
  "fmq_attach (MQDescriptor q) = q"

type_synonym BufferStatusQueue = "BufferStatusMessage fmq"
type_synonym BufferInvalidationQueue = "BufferInvalidationMessage fmq"
type_synonym StatusDescriptor = "BufferStatusMessage MQDescriptor"
type_synonym InvalidationDescriptor = "BufferInvalidationMessage MQDescriptor"

datatype fault = NullDereference | FrontOfEmptyList

subsection \<open>BufferStatusObserver\<close>

text \<open>
  \<^verbatim>\<open>mBufferStatusQueues\<close> is a \<^verbatim>\<open>std::map\<close> from ConnectionId to an owned queue: an
  association list in iteration order, that is in ascending (signed) key order.
  \<open>map_of\<close> is \<^verbatim>\<open>find\<close>; \<open>map_insert\<close> is \<^verbatim>\<open>insert\<close>, which leaves the map alone and
  answers false when the key is there, and otherwise puts the entry at its place in
  key order (\<open>map_place\<close>); \<open>map_erase\<close> is \<^verbatim>\<open>erase\<close>.
\<close>

record BufferStatusObserver =
  mBufferStatusQueues :: "(ConnectionId \<times> BufferStatusQueue) list"

fun map_place :: "ConnectionId \<times> 'q \<Rightarrow> (ConnectionId \<times> 'q) list \<Rightarrow> (ConnectionId \<times> 'q) list" where
  "map_place (k, v) [] = [(k, v)]"
| "map_place (k, v) ((k', v') # rest) =
     (if k <s k' then (k, v) # (k', v') # rest else (k', v') # map_place (k, v) rest)"

definition map_insert :: "ConnectionId \<times> 'q \<Rightarrow> (ConnectionId \<times> 'q) list
    \<Rightarrow> (ConnectionId \<times> 'q) list \<times> bool" where
  "map_insert e m = (if map_of m (fst e) \<noteq> None then (m, False) else (map_place e m, True))"

definition map_erase :: "ConnectionId \<Rightarrow> (ConnectionId \<times> 'q) list \<Rightarrow> (ConnectionId \<times> 'q) list" where
  "map_erase k m = filter (\<lambda>e. fst e \<noteq> k) m"

text \<open>
  \<^verbatim>\<open>open\<close>: the status, the observer after the call and the descriptor written through
  \<^verbatim>\<open>fmqDescPtr\<close> (\<open>None\<close> when nothing is written).
\<close>

definition BufferStatusObserver_open ::
  "BufferStatusObserver \<Rightarrow> ConnectionId \<Rightarrow> bool
    \<Rightarrow> ResultStatus \<times> BufferStatusObserver \<times> StatusDescriptor option" where
  "BufferStatusObserver_open obs cid shm_ok =
     (if map_of (mBufferStatusQueues obs) cid \<noteq> None then (CRITICAL_ERROR, obs, None)
      else
        let queue = fmq_new shm_ok kNumElementsInQueue in
        if fmq_isValid queue = False then (NO_MEMORY, obs, None)
        else
          let desc = dupeDesc queue;
              result = map_insert (cid, queue) (mBufferStatusQueues obs)
          in if \<not> snd result then (NO_MEMORY, obs, Some desc)
             else (OK, obs\<lparr>mBufferStatusQueues := fst result\<rparr>, Some desc))"

definition BufferStatusObserver_close ::
  "BufferStatusObserver \<Rightarrow> ConnectionId \<Rightarrow> ResultStatus \<times> BufferStatusObserver" where
  "BufferStatusObserver_close obs cid =
     (if map_of (mBufferStatusQueues obs) cid = None then (CRITICAL_ERROR, obs)
      else (OK, obs\<lparr>mBufferStatusQueues := map_erase cid (mBufferStatusQueues obs)\<rparr>))"

text \<open>
  The \<^verbatim>\<open>while (avail > 0)\<close> loop of \<^verbatim>\<open>getBufferStatusChanges\<close> on one queue, \<open>avail\<close>
  the counter: whether every read succeeded (a failed read returns from the whole
  call), the queue and the output vector.
\<close>

fun drain_queue :: "nat \<Rightarrow> ConnectionId \<Rightarrow> BufferStatusQueue \<Rightarrow> BufferStatusMessage list
    \<Rightarrow> bool \<times> BufferStatusQueue \<times> BufferStatusMessage list" where
  "drain_queue 0 cid q messages = (True, q, messages)"
| "drain_queue (Suc avail) cid q messages =
     (case fmq_read_one q of
        (None, q') \<Rightarrow> (False, q', messages)
      | (Some message, q') \<Rightarrow>
          drain_queue avail cid q' (messages @ [message\<lparr>connectionId := cid\<rparr>]))"

text \<open>The \<^verbatim>\<open>for\<close> loop over the registry, in iteration order.\<close>

fun drain_all :: "(ConnectionId \<times> BufferStatusQueue) list \<Rightarrow> BufferStatusMessage list
    \<Rightarrow> bool \<times> (ConnectionId \<times> BufferStatusQueue) list \<times> BufferStatusMessage list" where
  "drain_all [] messages = (True, [], messages)"
| "drain_all ((cid, q) # rest) messages =
     (case drain_queue (availableToRead q) cid q messages of
        (False, q', messages') \<Rightarrow> (False, (cid, q') # rest, messages')
      | (True, q', messages') \<Rightarrow>
          (case drain_all rest messages' of
             (ok, rest', messages'') \<Rightarrow> (ok, (cid, q') # rest', messages'')))"

definition getBufferStatusChanges ::
  "BufferStatusObserver \<Rightarrow> BufferStatusMessage list
    \<Rightarrow> BufferStatusObserver \<times> BufferStatusMessage list" where
  "getBufferStatusChanges obs messages =
     (case drain_all (mBufferStatusQueues obs) messages of
        (_, queues', messages') \<Rightarrow> (obs\<lparr>mBufferStatusQueues := queues'\<rparr>, messages'))"

text \<open>
  For stating what a drain yields: a queue after each of its unread records has been
  read by a call of its own, and the unread records of a registry entry, each with
  the entry's key as its \<open>connectionId\<close>.
\<close>

definition drained :: "'m fmq \<Rightarrow> 'm fmq" where
  "drained q = q\<lparr>fmq_unread := [],
     fmq_refusals := drop (length (fmq_unread q)) (fmq_refusals q)\<rparr>"

definition tagged :: "ConnectionId \<times> BufferStatusQueue \<Rightarrow> BufferStatusMessage list" where
  "tagged e = map (\<lambda>m. m\<lparr>connectionId := fst e\<rparr>) (fmq_unread (snd e))"

subsection \<open>BufferStatusChannel\<close>

record BufferStatusChannel =
  mValid :: bool
  mBufferStatusQueue :: "BufferStatusQueue option"

definition BufferStatusChannel_new :: "StatusDescriptor \<Rightarrow> BufferStatusChannel" where
  "BufferStatusChannel_new fmqDesc =
     (let queue = fmq_attach fmqDesc in
      if fmq_isValid queue = False then \<lparr>mValid = False, mBufferStatusQueue = None\<rparr>
      else \<lparr>mValid = True, mBufferStatusQueue = Some queue\<rparr>)"

definition isValid :: "BufferStatusChannel \<Rightarrow> bool" where
  "isValid ch = mValid ch"

definition needsSync :: "BufferStatusChannel \<Rightarrow> fault + bool" where
  "needsSync ch =
     (if mValid ch then
        (case mBufferStatusQueue ch of
           None \<Rightarrow> Inl NullDereference
         | Some q \<Rightarrow> Inr (availableToWrite q + kMinElementsToSyncInQueue < kNumElementsInQueue))
      else Inr False)"

text \<open>The NOT_USED message that both release loops build for the front of \<open>pending\<close>.\<close>

definition release_message :: "ConnectionId \<Rightarrow> BufferId \<Rightarrow> BufferStatusMessage" where
  "release_message cid bid =
     BufferStatusMessage_init\<lparr>status := NOT_USED, bufferId := bid, connectionId := cid\<rparr>"

text \<open>
  The loop \<^verbatim>\<open>for (i = 0; i < n; ++i)\<close> that \<^verbatim>\<open>postBufferRelease\<close> (lines 120 to 134)
  and \<^verbatim>\<open>postBufferStatusMessage\<close> (lines 170 to 184) share word for word, \<open>n\<close> the
  iterations left: whether it ran to its end (a failed write leaves it and the
  function), the queue, \<open>pending\<close> and \<open>posted\<close>.
\<close>

fun release_loop :: "nat \<Rightarrow> ConnectionId \<Rightarrow> BufferStatusQueue \<Rightarrow> BufferId list \<Rightarrow> BufferId list
    \<Rightarrow> fault + (bool \<times> BufferStatusQueue \<times> BufferId list \<times> BufferId list)" where
  "release_loop 0 cid q pending posted = Inr (True, q, pending, posted)"
| "release_loop (Suc n) cid q [] posted = Inl FrontOfEmptyList"
| "release_loop (Suc n) cid q (bid # pending) posted =
     (case fmq_write q (release_message cid bid) of
        (False, q') \<Rightarrow> Inr (False, q', bid # pending, posted)
      | (True, q') \<Rightarrow> release_loop n cid q' pending (posted @ [bid]))"

definition postBufferRelease ::
  "BufferStatusChannel \<Rightarrow> ConnectionId \<Rightarrow> BufferId list \<Rightarrow> BufferId list
    \<Rightarrow> fault + (BufferStatusChannel \<times> BufferId list \<times> BufferId list)" where
  "postBufferRelease ch cid pending posted =
     (if mValid ch \<and> length pending > 0 then
        (case mBufferStatusQueue ch of
           None \<Rightarrow> Inl NullDereference
         | Some q \<Rightarrow>
             let avail = min (availableToWrite q) (length pending) in
             (case release_loop avail cid q pending posted of
                Inl e \<Rightarrow> Inl e
              | Inr (_, q', pending', posted') \<Rightarrow>
                  Inr (ch\<lparr>mBufferStatusQueue := Some q'\<rparr>, pending', posted')))
      else Inr (ch, pending, posted))"

definition ack_message :: "ConnectionId \<Rightarrow> 32 word \<Rightarrow> BufferStatusMessage" where
  "ack_message cid invalidateId =
     BufferStatusMessage_init
       \<lparr>status := INVALIDATION_ACK, bufferId := invalidateId, connectionId := cid\<rparr>"

text \<open>\<^verbatim>\<open>postBufferInvalidateAck\<close>: the channel and the flag \<^verbatim>\<open>*invalidated\<close> after the call.\<close>

definition postBufferInvalidateAck ::
  "BufferStatusChannel \<Rightarrow> ConnectionId \<Rightarrow> 32 word \<Rightarrow> bool
    \<Rightarrow> fault + (BufferStatusChannel \<times> bool)" where
  "postBufferInvalidateAck ch cid invalidateId invalidated =
     (if mValid ch \<and> \<not> invalidated then
        (case mBufferStatusQueue ch of
           None \<Rightarrow> Inl NullDereference
         | Some q \<Rightarrow>
             let avail = availableToWrite q in
             if avail > 0 then
               (case fmq_write q (ack_message cid invalidateId) of
                  (False, q') \<Rightarrow> Inr (ch\<lparr>mBufferStatusQueue := Some q'\<rparr>, invalidated)
                | (True, q') \<Rightarrow> Inr (ch\<lparr>mBufferStatusQueue := Some q'\<rparr>, True))
             else Inr (ch, invalidated))
      else Inr (ch, invalidated))"

definition status_message ::
  "TransactionId \<Rightarrow> BufferId \<Rightarrow> BufferStatus \<Rightarrow> ConnectionId \<Rightarrow> ConnectionId
    \<Rightarrow> BufferStatusMessage" where
  "status_message tid bid st cid targetId =
     BufferStatusMessage_init
       \<lparr>transactionId := tid, bufferId := bid, status := st, connectionId := cid,
        targetConnectionId := targetId, timestampUs := 0\<rparr>"

text \<open>
  \<^verbatim>\<open>postBufferStatusMessage\<close>: the result, the channel, \<open>pending\<close> and \<open>posted\<close> after
  the call.
\<close>

definition postBufferStatusMessage ::
  "BufferStatusChannel \<Rightarrow> TransactionId \<Rightarrow> BufferId \<Rightarrow> BufferStatus \<Rightarrow> ConnectionId
    \<Rightarrow> ConnectionId \<Rightarrow> BufferId list \<Rightarrow> BufferId list
    \<Rightarrow> fault + (bool \<times> BufferStatusChannel \<times> BufferId list \<times> BufferId list)" where
  "postBufferStatusMessage ch tid bid st cid targetId pending posted =
     (if mValid ch then
        (case mBufferStatusQueue ch of
           None \<Rightarrow> Inl NullDereference
         | Some q \<Rightarrow>
             let avail = availableToWrite q; numPending = length pending in
             if avail \<ge> numPending + 1 then
               (case release_loop numPending cid q pending posted of
                  Inl e \<Rightarrow> Inl e
                | Inr (False, q', pending', posted') \<Rightarrow>
                    Inr (False, ch\<lparr>mBufferStatusQueue := Some q'\<rparr>, pending', posted')
                | Inr (True, q', pending', posted') \<Rightarrow>
                    (case fmq_write q' (status_message tid bid st cid targetId) of
                       (False, q'') \<Rightarrow>
                         Inr (False, ch\<lparr>mBufferStatusQueue := Some q''\<rparr>, pending', posted')
                     | (True, q'') \<Rightarrow>
                         Inr (True, ch\<lparr>mBufferStatusQueue := Some q''\<rparr>, pending', posted')))
             else Inr (False, ch, pending, posted))
      else Inr (False, ch, pending, posted))"

subsection \<open>BufferInvalidationListener\<close>

text \<open>The field \<open>lValid\<close> is the listener's \<^verbatim>\<open>mValid\<close>.\<close>

record BufferInvalidationListener =
  lValid :: bool
  mBufferInvalidationQueue :: "BufferInvalidationQueue option"

text \<open>
  The constructor: attach, then read the backlog away. The result of that
  \<^verbatim>\<open>read\<close> is not looked at.
\<close>

definition BufferInvalidationListener_new ::
  "InvalidationDescriptor \<Rightarrow> BufferInvalidationListener" where
  "BufferInvalidationListener_new fmqDesc =
     (let queue = fmq_attach fmqDesc in
      if fmq_isValid queue = False
      then \<lparr>lValid = False, mBufferInvalidationQueue = None\<rparr>
      else
        let avail = min (availableToRead queue) kNumElementsInQueue in
        if avail > 0
        then \<lparr>lValid = True, mBufferInvalidationQueue = Some (snd (fmq_read queue avail))\<rparr>
        else \<lparr>lValid = True, mBufferInvalidationQueue = Some queue\<rparr>)"

text \<open>
  The loop \<^verbatim>\<open>for (int i = 0; i < 2; ++i)\<close> of \<^verbatim>\<open>getInvalidations\<close>, \<open>n\<close> the passes
  left: a read that succeeds appends and breaks, one that fails goes round again,
  nothing available returns.
\<close>

fun getInvalidations_loop :: "nat \<Rightarrow> BufferInvalidationQueue \<Rightarrow> BufferInvalidationMessage list
    \<Rightarrow> BufferInvalidationQueue \<times> BufferInvalidationMessage list" where
  "getInvalidations_loop 0 q messages = (q, messages)"
| "getInvalidations_loop (Suc n) q messages =
     (let avail = min (availableToRead q) kNumElementsInQueue in
      if avail > 0 then
        (case fmq_read q avail of
           (Some temp, q') \<Rightarrow> (q', messages @ temp)
         | (None, q') \<Rightarrow> getInvalidations_loop n q' messages)
      else (q, messages))"

definition getInvalidations ::
  "BufferInvalidationListener \<Rightarrow> BufferInvalidationMessage list
    \<Rightarrow> fault + (BufferInvalidationListener \<times> BufferInvalidationMessage list)" where
  "getInvalidations l messages =
     (case mBufferInvalidationQueue l of
        None \<Rightarrow> Inl NullDereference
      | Some q \<Rightarrow>
          (case getInvalidations_loop 2 q messages of
             (q', messages') \<Rightarrow> Inr (l\<lparr>mBufferInvalidationQueue := Some q'\<rparr>, messages')))"

definition listener_isValid :: "BufferInvalidationListener \<Rightarrow> bool" where
  "listener_isValid l = lValid l"

section \<open>Wraparound arithmetic: properties\<close>

lemma double_mod32:
  fixes n :: nat
  assumes "2 * n mod 4294967296 = 0" and "n < 4294967296"
  shows "n = 0 \<or> n = 2147483648"
proof (cases "2 * n < 4294967296")
  case True
  then have "2 * n mod 4294967296 = 2 * n" by simp
  with assms show ?thesis by simp
next
  case False
  then have "2 * n mod 4294967296 = (2 * n - 4294967296) mod 4294967296"
    by (simp add: le_mod_geq)
  also have "\<dots> = 2 * n - 4294967296" using assms(2) by simp
  finally show ?thesis using assms(1) False by linarith
qed

text \<open>A 32-bit value is its own negation only at zero and at half the id space.\<close>

lemma self_neg32: "(d :: 32 word) = - d \<longleftrightarrow> d = 0 \<or> d = 2 ^ 31"
proof
  assume h: "d = - d"
  then have "d + d = 0" by (metis add.right_inverse)
  then have "unat (d + d) = 0" by simp
  then have m: "2 * unat d mod 4294967296 = 0"
    by (simp add: unat_word_ariths)
  have b: "unat d < 4294967296" using unsigned_less [of d] by simp
  from m b have "unat d = 0 \<or> unat d = 2147483648" by (rule double_mod32)
  moreover have "unat (0 :: 32 word) = 0" and "unat (2 ^ 31 :: 32 word) = 2147483648"
    by simp_all
  ultimately show "d = 0 \<or> d = 2 ^ 31"
    by (metis word_unat_eq_iff)
next
  assume "d = 0 \<or> d = 2 ^ 31"
  then show "d = - d" by auto
qed

lemma isMessageLater_swap:
  assumes ne: "a \<noteq> b"
  shows "(isMessageLater a b \<noteq> isMessageLater b a) = (a - b \<noteq> 2 ^ 31)"
proof -
  have neg: "b - a = - (a - b)" by simp
  have nz: "a - b \<noteq> 0" using ne by simp
  show ?thesis
  proof (cases "a - b = 2 ^ 31")
    case True
    then have "a - b = - (a - b)" using self_neg32 [of "a - b"] by blast
    then have "b - a = a - b" using neg by metis
    then show ?thesis using True by (simp add: isMessageLater_def)
  next
    case False
    then have "a - b \<noteq> - (a - b)" using self_neg32 [of "a - b"] nz by blast
    then have "a - b \<noteq> b - a" using neg by metis
    then have "a - b < b - a \<or> b - a < a - b" by (rule linorder_neqE) auto
    then show ?thesis using False ne by (auto simp: isMessageLater_def)
  qed
qed

text \<open>At the antipodal distance neither id is later than the other.\<close>

lemma isMessageLater_antipodal:
  "a - b = 2 ^ 31 \<Longrightarrow> \<not> isMessageLater a b \<and> \<not> isMessageLater b a"
  using isMessageLater_swap [of a b] by (auto simp: isMessageLater_def)

text \<open>
  Claim C3. \<open>isMessageLater cur prev\<close> holds exactly when \<open>cur\<close> differs from \<open>prev\<close>
  and the wrapping forward distance \<open>cur - prev\<close> is strictly below the backward
  distance \<open>prev - cur\<close>; and for two different 32-bit ids whose wrapping distance is
  not \<open>2 ^ 31\<close>, exactly one of \<open>isMessageLater a b\<close> and \<open>isMessageLater b a\<close> is true.
\<close>

theorem isMessageLater_half_space:
  "(isMessageLater cur prev \<longleftrightarrow> cur \<noteq> prev \<and> cur - prev < prev - cur) \<and>
   (a \<noteq> b \<and> a - b \<noteq> 2 ^ 31 \<longrightarrow> isMessageLater a b \<noteq> isMessageLater b a)"
proof (intro conjI impI)
  show "isMessageLater cur prev \<longleftrightarrow> cur \<noteq> prev \<and> cur - prev < prev - cur"
    by (simp add: isMessageLater_def)
next
  assume "a \<noteq> b \<and> a - b \<noteq> 2 ^ 31"
  then show "isMessageLater a b \<noteq> isMessageLater b a"
    using isMessageLater_swap [of a b] by blast
qed

text \<open>Across the wrap: id 1 is later than id \<open>2 ^ 32 - 1\<close>, and not the other way round.\<close>

theorem isMessageLater_half_space_witness:
  "(isMessageLater 1 0xFFFFFFFF \<longleftrightarrow>
      (1 :: 32 word) \<noteq> 0xFFFFFFFF \<and> (1 :: 32 word) - 0xFFFFFFFF < 0xFFFFFFFF - 1) \<and>
   (1 :: 32 word) \<noteq> 0xFFFFFFFF \<and> (1 :: 32 word) - 0xFFFFFFFF \<noteq> 2 ^ 31 \<and>
   isMessageLater 1 0xFFFFFFFF \<and> \<not> isMessageLater 0xFFFFFFFF 1"
  using isMessageLater_half_space [of 1 "0xFFFFFFFF" 1 "0xFFFFFFFF"]
  by (simp add: isMessageLater_def)

text \<open>
  Claim C4. For all 32-bit ids, \<open>isBufferInRange fromId toId x\<close> is the plain bounds
  check \<open>fromId \<le> x \<and> x < toId\<close> when \<open>fromId < toId\<close> numerically, and
  \<open>x \<ge> fromId \<or> x < toId\<close> otherwise; the three examples of the range from 250 to 10
  come out as true, false and true.
\<close>

theorem isBufferInRange_spec:
  "isBufferInRange fromId toId x =
     (if fromId < toId then fromId \<le> x \<and> x < toId else x \<ge> fromId \<or> x < toId) \<and>
   isBufferInRange 250 10 255 \<and> \<not> isBufferInRange 250 10 10 \<and> isBufferInRange 250 10 5"
  by (simp add: isBufferInRange_def)

text \<open>
  Claim C10. A range whose two ends are equal contains every id: \<open>fromId < toId\<close>
  fails, and the wrapped test \<open>x \<le> y \<or> y < x\<close> is true of every \<open>y\<close>.
\<close>

theorem isBufferInRange_empty_is_full: "isBufferInRange x x y"
  by (auto simp: isBufferInRange_def)

section \<open>The queue primitive: what a call does\<close>

lemma fmq_serves_Suc:
  "fmq_serves (Suc n) q \<longleftrightarrow> \<not> fmq_refused q \<and> fmq_serves n (fmq_called q)"
  by (cases "fmq_refusals q") (auto simp: fmq_serves_def fmq_refused_def fmq_called_def)

lemma fmq_serves_unread [simp]:
  "fmq_serves n (q\<lparr>fmq_unread := xs\<rparr>) = fmq_serves n q"
  by (simp add: fmq_serves_def)

lemma fmq_write_unread:
  "fmq_write q m = (ok, q') \<Longrightarrow>
   fmq_unread q' = (if ok then fmq_unread q @ [m] else fmq_unread q) \<and>
   fmq_capacity q' = fmq_capacity q \<and> fmq_isValid q' = fmq_isValid q \<and>
   fmq_refusals q' = tl (fmq_refusals q)"
  by (auto simp: fmq_write_def fmq_called_def split: if_splits)

lemma fmq_serves_less: "fmq_serves (n + k) q \<Longrightarrow> fmq_serves n q"
  by (auto simp: fmq_serves_def take_add)

lemma fmq_serves_next:
  "fmq_serves (n + 1) q \<Longrightarrow>
   \<not> fmq_refused (q\<lparr>fmq_unread := xs, fmq_refusals := drop n (fmq_refusals q)\<rparr>)"
proof -
  assume a: "fmq_serves (n + 1) q"
  have t: "take (n + 1) (fmq_refusals q) =
      take n (fmq_refusals q) @ take 1 (drop n (fmq_refusals q))"
    by (rule take_add)
  show ?thesis
  proof (cases "drop n (fmq_refusals q)")
    case Nil
    then show ?thesis by (simp add: fmq_refused_def)
  next
    case (Cons b bs)
    then have "b \<in> set (take (n + 1) (fmq_refusals q))" unfolding t by simp
    then have "b \<noteq> True" using a unfolding fmq_serves_def by metis
    then show ?thesis using Cons by (simp add: fmq_refused_def)
  qed
qed

lemma fmq_read_one_eq:
  "fmq_read_one q =
     (if fmq_refused q then (None, (fmq_called q)\<lparr>fmq_unread := []\<rparr>)
      else (case fmq_unread q of
              m # ms \<Rightarrow> (Some m, (fmq_called q)\<lparr>fmq_unread := ms\<rparr>)
            | [] \<Rightarrow> (None, fmq_called q)))"
  by (cases "fmq_unread q")
    (auto simp: fmq_read_one_def fmq_read_def availableToRead_def fmq_called_def)


section \<open>The observer's registry\<close>

lemma map_of_map_place:
  "map_of m k = None \<Longrightarrow> map_of (map_place (k, v) m) = (map_of m)(k \<mapsto> v)"
  by (induction m) (auto simp: fun_upd_twist split: if_splits)

lemma map_insert_snd: "snd (map_insert (k, v) m) = (map_of m k = None)"
  by (simp add: map_insert_def)

lemma map_of_map_insert:
  "map_of m k = None \<Longrightarrow> map_of (fst (map_insert (k, v) m)) = (map_of m)(k \<mapsto> v)"
  by (simp add: map_insert_def map_of_map_place)

lemma map_of_map_erase: "map_of (map_erase k m) = (map_of m)(k := None)"
  by (induction m) (auto simp: map_erase_def)

lemma open_registered:
  "map_of (mBufferStatusQueues obs) cid \<noteq> None \<Longrightarrow>
   BufferStatusObserver_open obs cid shm_ok = (CRITICAL_ERROR, obs, None)"
  by (simp add: BufferStatusObserver_open_def)

lemma open_no_memory:
  "fst (BufferStatusObserver_open obs cid shm_ok) = NO_MEMORY \<longleftrightarrow>
     map_of (mBufferStatusQueues obs) cid = None \<and>
     (fmq_isValid (fmq_new shm_ok kNumElementsInQueue :: BufferStatusQueue) = False \<or>
      \<not> snd (map_insert (cid, fmq_new shm_ok kNumElementsInQueue) (mBufferStatusQueues obs)))"
  by (auto simp: BufferStatusObserver_open_def Let_def)

lemma open_no_memory_unchanged:
  "fst (BufferStatusObserver_open obs cid shm_ok) = NO_MEMORY \<Longrightarrow>
   fst (snd (BufferStatusObserver_open obs cid shm_ok)) = obs"
  by (auto simp: BufferStatusObserver_open_def Let_def split: if_splits)

lemma open_fresh:
  assumes "map_of (mBufferStatusQueues obs) cid = None"
  shows "\<exists>obs'. BufferStatusObserver_open obs cid True =
            (OK, obs', Some (dupeDesc (fmq_new True kNumElementsInQueue))) \<and>
          map_of (mBufferStatusQueues obs') =
            (map_of (mBufferStatusQueues obs))(cid \<mapsto> fmq_new True kNumElementsInQueue)"
  using assms
  by (simp add: BufferStatusObserver_open_def Let_def map_insert_snd map_of_map_insert fmq_new_def)

lemma open_construction_fails:
  assumes "map_of (mBufferStatusQueues obs) cid = None"
  shows "BufferStatusObserver_open obs cid False = (NO_MEMORY, obs, None)"
  using assms
  by (simp add: BufferStatusObserver_open_def Let_def fmq_new_def)

lemma close_spec:
  "BufferStatusObserver_close obs cid =
     (if map_of (mBufferStatusQueues obs) cid = None then (CRITICAL_ERROR, obs)
      else (OK, obs\<lparr>mBufferStatusQueues := map_erase cid (mBufferStatusQueues obs)\<rparr>))"
  by (simp add: BufferStatusObserver_close_def)

text \<open>
  Claim C6. \<^verbatim>\<open>open\<close> on a registered id returns CRITICAL_ERROR and changes nothing.
  It returns NO_MEMORY exactly when the id is free and the queue's construction or
  its registration fails, and the registry is then as before. Otherwise it
  registers a fresh, empty queue of 16384 records under the id, writes out that
  queue's descriptor and returns OK. \<^verbatim>\<open>close\<close> on an id that is not registered
  returns CRITICAL_ERROR and changes nothing; otherwise it removes the id's queue and
  returns OK.
\<close>

theorem open_close_registry:
  "(map_of (mBufferStatusQueues obs) cid \<noteq> None \<longrightarrow>
      BufferStatusObserver_open obs cid shm_ok = (CRITICAL_ERROR, obs, None)) \<and>
   (fst (BufferStatusObserver_open obs cid shm_ok) = NO_MEMORY \<longleftrightarrow>
      map_of (mBufferStatusQueues obs) cid = None \<and>
      (fmq_isValid (fmq_new shm_ok kNumElementsInQueue :: BufferStatusQueue) = False \<or>
       \<not> snd (map_insert (cid, fmq_new shm_ok kNumElementsInQueue) (mBufferStatusQueues obs)))) \<and>
   (fst (BufferStatusObserver_open obs cid shm_ok) = NO_MEMORY \<longrightarrow>
      fst (snd (BufferStatusObserver_open obs cid shm_ok)) = obs) \<and>
   (map_of (mBufferStatusQueues obs) cid = None \<and>
    fmq_isValid (fmq_new shm_ok kNumElementsInQueue :: BufferStatusQueue) \<longrightarrow>
      (\<exists>obs'. BufferStatusObserver_open obs cid shm_ok =
           (OK, obs', Some (dupeDesc (fmq_new True kNumElementsInQueue))) \<and>
         map_of (mBufferStatusQueues obs') =
           (map_of (mBufferStatusQueues obs))(cid \<mapsto> fmq_new True kNumElementsInQueue)) \<and>
      fmq_capacity (fmq_new True kNumElementsInQueue :: BufferStatusQueue) = 16384 \<and>
      fmq_unread (fmq_new True kNumElementsInQueue :: BufferStatusQueue) = []) \<and>
   (map_of (mBufferStatusQueues obs) cid = None \<longrightarrow>
      BufferStatusObserver_close obs cid = (CRITICAL_ERROR, obs)) \<and>
   (map_of (mBufferStatusQueues obs) cid \<noteq> None \<longrightarrow>
      (\<exists>obs'. BufferStatusObserver_close obs cid = (OK, obs') \<and>
         map_of (mBufferStatusQueues obs') = (map_of (mBufferStatusQueues obs))(cid := None)))"
proof (intro conjI impI)
  assume "map_of (mBufferStatusQueues obs) cid \<noteq> None"
  then show "BufferStatusObserver_open obs cid shm_ok = (CRITICAL_ERROR, obs, None)"
    by (rule open_registered)
next
  show "fst (BufferStatusObserver_open obs cid shm_ok) = NO_MEMORY \<longleftrightarrow>
      map_of (mBufferStatusQueues obs) cid = None \<and>
      (fmq_isValid (fmq_new shm_ok kNumElementsInQueue :: BufferStatusQueue) = False \<or>
       \<not> snd (map_insert (cid, fmq_new shm_ok kNumElementsInQueue) (mBufferStatusQueues obs)))"
    by (rule open_no_memory)
next
  assume "fst (BufferStatusObserver_open obs cid shm_ok) = NO_MEMORY"
  then show "fst (snd (BufferStatusObserver_open obs cid shm_ok)) = obs"
    by (rule open_no_memory_unchanged)
next
  assume h: "map_of (mBufferStatusQueues obs) cid = None \<and>
    fmq_isValid (fmq_new shm_ok kNumElementsInQueue :: BufferStatusQueue)"
  then have "shm_ok" by (simp add: fmq_new_def)
  then show "\<exists>obs'. BufferStatusObserver_open obs cid shm_ok =
           (OK, obs', Some (dupeDesc (fmq_new True kNumElementsInQueue))) \<and>
         map_of (mBufferStatusQueues obs') =
           (map_of (mBufferStatusQueues obs))(cid \<mapsto> fmq_new True kNumElementsInQueue)"
    using h open_fresh [of obs cid] by simp
next
  show "fmq_capacity (fmq_new True kNumElementsInQueue :: BufferStatusQueue) = 16384"
    by (simp add: fmq_new_def kNumElementsInQueue_def)
next
  show "fmq_unread (fmq_new True kNumElementsInQueue :: BufferStatusQueue) = []"
    by (simp add: fmq_new_def)
next
  assume "map_of (mBufferStatusQueues obs) cid = None"
  then show "BufferStatusObserver_close obs cid = (CRITICAL_ERROR, obs)"
    by (simp add: close_spec)
next
  assume "map_of (mBufferStatusQueues obs) cid \<noteq> None"
  then show "\<exists>obs'. BufferStatusObserver_close obs cid = (OK, obs') \<and>
         map_of (mBufferStatusQueues obs') = (map_of (mBufferStatusQueues obs))(cid := None)"
    by (simp add: close_spec map_of_map_erase)
qed

text \<open>
  A registry holding id 1: opening 1 again, opening 2 without memory, opening \<open>- 1\<close>
  (which goes in front, the keys being signed), closing 2 and closing 1.
\<close>

theorem open_close_registry_witness:
  "BufferStatusObserver_open
     \<lparr>mBufferStatusQueues = [(1, fmq_new True kNumElementsInQueue)]\<rparr> 1 True =
     (CRITICAL_ERROR, \<lparr>mBufferStatusQueues = [(1, fmq_new True kNumElementsInQueue)]\<rparr>, None) \<and>
   BufferStatusObserver_open
     \<lparr>mBufferStatusQueues = [(1, fmq_new True kNumElementsInQueue)]\<rparr> 2 False =
     (NO_MEMORY, \<lparr>mBufferStatusQueues = [(1, fmq_new True kNumElementsInQueue)]\<rparr>, None) \<and>
   BufferStatusObserver_open
     \<lparr>mBufferStatusQueues = [(1, fmq_new True kNumElementsInQueue)]\<rparr> (- 1) True =
     (OK,
      \<lparr>mBufferStatusQueues =
         [(- 1, fmq_new True kNumElementsInQueue), (1, fmq_new True kNumElementsInQueue)]\<rparr>,
      Some (dupeDesc (fmq_new True kNumElementsInQueue))) \<and>
   BufferStatusObserver_close
     \<lparr>mBufferStatusQueues = [(1, fmq_new True kNumElementsInQueue)]\<rparr> 2 =
     (CRITICAL_ERROR, \<lparr>mBufferStatusQueues = [(1, fmq_new True kNumElementsInQueue)]\<rparr>) \<and>
   BufferStatusObserver_close
     \<lparr>mBufferStatusQueues = [(1, fmq_new True kNumElementsInQueue)]\<rparr> 1 =
     (OK, \<lparr>mBufferStatusQueues = []\<rparr>)"
  using open_close_registry
      [of "\<lparr>mBufferStatusQueues = [(1, fmq_new True kNumElementsInQueue)]\<rparr>" 1 True]
    open_close_registry
      [of "\<lparr>mBufferStatusQueues = [(1, fmq_new True kNumElementsInQueue)]\<rparr>" 2 False]
    open_close_registry
      [of "\<lparr>mBufferStatusQueues = [(1, fmq_new True kNumElementsInQueue)]\<rparr>" "- 1" True]
  by (simp add: BufferStatusObserver_open_def BufferStatusObserver_close_def map_insert_def
      map_erase_def fmq_new_def Let_def word_sless_alt)

section \<open>Draining the status queues\<close>

lemma drain_queue_prefix:
  "n \<le> length (fmq_unread q) \<Longrightarrow>
   \<exists>ok q' k. drain_queue n cid q messages =
       (ok, q', messages @ map (\<lambda>m. m\<lparr>connectionId := cid\<rparr>) (take k (fmq_unread q))) \<and>
     k \<le> n \<and> (ok \<longleftrightarrow> k = n)"
proof (induction n arbitrary: q messages)
  case 0
  have "drain_queue 0 cid q messages =
      (True, q, messages @ map (\<lambda>m. m\<lparr>connectionId := cid\<rparr>) (take 0 (fmq_unread q)))"
    by simp
  then show ?case by blast
next
  case (Suc n)
  then obtain m ms where u: "fmq_unread q = m # ms" by (cases "fmq_unread q") auto
  show ?case
  proof (cases "fmq_refused q")
    case True
    then have "drain_queue (Suc n) cid q messages =
        (False, (fmq_called q)\<lparr>fmq_unread := []\<rparr>,
         messages @ map (\<lambda>m. m\<lparr>connectionId := cid\<rparr>) (take 0 (fmq_unread q)))"
      by (simp add: fmq_read_one_eq)
    then show ?thesis by blast
  next
    case False
    let ?q1 = "(fmq_called q)\<lparr>fmq_unread := ms\<rparr>"
    have "n \<le> length (fmq_unread ?q1)" using Suc.prems u by simp
    from Suc.IH [OF this, of "messages @ [m\<lparr>connectionId := cid\<rparr>]"]
    obtain ok q' k where ih:
      "drain_queue n cid ?q1 (messages @ [m\<lparr>connectionId := cid\<rparr>]) =
         (ok, q', (messages @ [m\<lparr>connectionId := cid\<rparr>]) @
            map (\<lambda>m. m\<lparr>connectionId := cid\<rparr>) (take k (fmq_unread ?q1)))"
      "k \<le> n" "ok \<longleftrightarrow> k = n"
      by blast
    have "drain_queue (Suc n) cid q messages =
        (ok, q', messages @ map (\<lambda>m. m\<lparr>connectionId := cid\<rparr>) (take (Suc k) (fmq_unread q)))"
      using False u ih(1) by (simp add: fmq_read_one_eq)
    moreover have "Suc k \<le> Suc n" "ok \<longleftrightarrow> Suc k = Suc n" using ih by simp_all
    ultimately show ?thesis by blast
  qed
qed

lemma drain_queue_served:
  "n \<le> length (fmq_unread q) \<Longrightarrow> fmq_serves n q \<Longrightarrow>
   drain_queue n cid q messages =
     (True,
      q\<lparr>fmq_unread := drop n (fmq_unread q), fmq_refusals := drop n (fmq_refusals q)\<rparr>,
      messages @ map (\<lambda>m. m\<lparr>connectionId := cid\<rparr>) (take n (fmq_unread q)))"
proof (induction n arbitrary: q messages)
  case 0
  then show ?case by simp
next
  case (Suc n)
  then obtain m ms where u: "fmq_unread q = m # ms" by (cases "fmq_unread q") auto
  let ?q1 = "(fmq_called q)\<lparr>fmq_unread := ms\<rparr>"
  from Suc.prems have nr: "\<not> fmq_refused q" and sv: "fmq_serves n ?q1"
    by (simp_all add: fmq_serves_Suc)
  have "n \<le> length (fmq_unread ?q1)" using Suc.prems u by simp
  then have "drain_queue n cid ?q1 (messages @ [m\<lparr>connectionId := cid\<rparr>]) =
     (True,
      ?q1\<lparr>fmq_unread := drop n (fmq_unread ?q1), fmq_refusals := drop n (fmq_refusals ?q1)\<rparr>,
      (messages @ [m\<lparr>connectionId := cid\<rparr>]) @
        map (\<lambda>m. m\<lparr>connectionId := cid\<rparr>) (take n (fmq_unread ?q1)))"
    using sv by (rule Suc.IH)
  then show ?case using nr u by (simp add: fmq_read_one_eq fmq_called_def drop_Suc)
qed

lemma drain_all_served:
  "(\<forall>e \<in> set reg. fmq_serves (length (fmq_unread (snd e))) (snd e)) \<Longrightarrow>
   drain_all reg messages =
     (True, map (\<lambda>e. (fst e, drained (snd e))) reg, messages @ concat (map tagged reg))"
proof (induction reg arbitrary: messages)
  case Nil
  then show ?case by simp
next
  case (Cons e reg)
  obtain cid q where e: "e = (cid, q)" by (cases e) auto
  from Cons.prems e have "fmq_serves (length (fmq_unread q)) q" by simp
  then have d: "drain_queue (availableToRead q) cid q messages =
      (True, drained q, messages @ tagged (cid, q))"
    using drain_queue_served [of "length (fmq_unread q)" q cid messages]
    by (simp add: availableToRead_def drained_def tagged_def)
  from Cons.prems have "\<forall>e \<in> set reg. fmq_serves (length (fmq_unread (snd e))) (snd e)"
    by simp
  from Cons.IH [OF this, of "messages @ tagged (cid, q)"] d e
  show ?case by simp
qed

lemma drain_all_prefix:
  "\<exists>k. snd (snd (drain_all reg messages)) = messages @ take k (concat (map tagged reg))"
proof (induction reg arbitrary: messages)
  case Nil
  then show ?case by simp
next
  case (Cons e reg)
  obtain cid q where e: "e = (cid, q)" by (cases e) auto
  have "length (fmq_unread q) \<le> length (fmq_unread q)" by simp
  from drain_queue_prefix [OF this, of cid messages]
  obtain ok q' k where d:
    "drain_queue (length (fmq_unread q)) cid q messages =
       (ok, q', messages @ map (\<lambda>m. m\<lparr>connectionId := cid\<rparr>) (take k (fmq_unread q)))"
    "k \<le> length (fmq_unread q)" "ok \<longleftrightarrow> k = length (fmq_unread q)"
    by blast
  show ?case
  proof (cases ok)
    case False
    then have "snd (snd (drain_all (e # reg) messages)) =
        messages @ map (\<lambda>m. m\<lparr>connectionId := cid\<rparr>) (take k (fmq_unread q))"
      using e d(1) by (simp add: availableToRead_def)
    also have "\<dots> = messages @ take k (concat (map tagged (e # reg)))"
      using d(2) e by (simp add: tagged_def take_map)
    finally show ?thesis by blast
  next
    case True
    then have k: "k = length (fmq_unread q)" using d(3) by simp
    obtain k' where ih: "snd (snd (drain_all reg (messages @ tagged (cid, q)))) =
        (messages @ tagged (cid, q)) @ take k' (concat (map tagged reg))"
      using Cons.IH by blast
    have "snd (snd (drain_all (e # reg) messages)) =
        snd (snd (drain_all reg (messages @ tagged (cid, q))))"
      using e d(1) True k by (simp add: availableToRead_def tagged_def split: prod.splits)
    also have "\<dots> = messages @ take (length (tagged (cid, q)) + k')
        (concat (map tagged (e # reg)))"
      using ih e by simp
    finally show ?thesis by blast
  qed
qed

lemma filter_tagged:
  "filter (\<lambda>m. connectionId m = cid) (tagged e) = (if fst e = cid then tagged e else [])"
  by (simp add: tagged_def filter_map comp_def)

lemma drain_all_append_served:
  "(\<forall>e \<in> set pre. fmq_serves (length (fmq_unread (snd e))) (snd e)) \<Longrightarrow>
   snd (snd (drain_all (pre @ rest) messages)) =
     snd (snd (drain_all rest (messages @ concat (map tagged pre))))"
proof (induction pre arbitrary: messages)
  case Nil
  then show ?case by simp
next
  case (Cons e pre)
  obtain cid q where e: "e = (cid, q)" by (cases e) auto
  from Cons.prems e have "fmq_serves (length (fmq_unread q)) q" by simp
  then have d: "drain_queue (availableToRead q) cid q messages =
      (True, drained q, messages @ tagged (cid, q))"
    using drain_queue_served [of "length (fmq_unread q)" q cid messages]
    by (simp add: availableToRead_def drained_def tagged_def)
  from Cons.prems have "\<forall>e \<in> set pre. fmq_serves (length (fmq_unread (snd e))) (snd e)"
    by simp
  from Cons.IH [OF this, of "messages @ tagged (cid, q)"] d e
  show ?case
    by (cases "drain_all (pre @ rest) (messages @ tagged (cid, q))") simp
qed

lemma drain_all_through:
  assumes "\<forall>e \<in> set (pre @ [(cid, q)]). fmq_serves (length (fmq_unread (snd e))) (snd e)"
  shows "\<exists>k. snd (snd (drain_all (pre @ (cid, q) # post) messages)) =
      messages @ concat (map tagged pre) @ tagged (cid, q) @ take k (concat (map tagged post))"
proof -
  have "snd (snd (drain_all ((pre @ [(cid, q)]) @ post) messages)) =
      snd (snd (drain_all post (messages @ concat (map tagged (pre @ [(cid, q)])))))"
    using assms by (rule drain_all_append_served)
  moreover obtain k where
    "snd (snd (drain_all post (messages @ concat (map tagged (pre @ [(cid, q)]))))) =
       (messages @ concat (map tagged (pre @ [(cid, q)]))) @ take k (concat (map tagged post))"
    using drain_all_prefix by blast
  ultimately have "snd (snd (drain_all (pre @ (cid, q) # post) messages)) =
      messages @ concat (map tagged pre) @ tagged (cid, q) @ take k (concat (map tagged post))"
    by simp
  then show ?thesis by blast
qed

lemma connectionId_tagged:
  "m \<in> set (concat (map tagged reg)) \<Longrightarrow> connectionId m \<in> fst ` set reg"
  by (force simp: tagged_def)

lemma filter_tagged_others:
  assumes "cid \<notin> fst ` set reg"
  shows "filter (\<lambda>m. connectionId m = cid) (take k (concat (map tagged reg))) = []"
proof -
  have "\<forall>m \<in> set (take k (concat (map tagged reg))). connectionId m \<noteq> cid"
    using assms connectionId_tagged [of _ reg] by (metis in_set_takeD)
  then show ?thesis by (simp add: filter_empty_conv)
qed

lemma getBufferStatusChanges_snd:
  "snd (getBufferStatusChanges obs messages) =
     snd (snd (drain_all (mBufferStatusQueues obs) messages))"
  by (simp add: getBufferStatusChanges_def split: prod.splits)

text \<open>When no read at all is refused, every queue is drained to the end.\<close>

lemma getBufferStatusChanges_all_served:
  "(\<forall>e \<in> set (mBufferStatusQueues obs). fmq_serves (length (fmq_unread (snd e))) (snd e)) \<Longrightarrow>
   getBufferStatusChanges obs messages =
     (obs\<lparr>mBufferStatusQueues := map (\<lambda>e. (fst e, drained (snd e))) (mBufferStatusQueues obs)\<rparr>,
      messages @ concat (map tagged (mBufferStatusQueues obs)))"
  by (simp add: getBufferStatusChanges_def drain_all_served)

text \<open>
  Claim C7, amended. For a connection registered with \<open>N\<close> records in its queue: when
  no read of that queue and of the queues before it in registry order is refused,
  \<^verbatim>\<open>getBufferStatusChanges\<close> appends the records of the earlier queues, then exactly
  those \<open>N\<close> records in the order they were written, each with the connection's id
  as its \<open>connectionId\<close>, then an initial part of the later queues' records; the
  registry's ids being distinct, the appended messages that carry the connection's
  id are exactly those \<open>N\<close>. Whether or not a read is refused, what the call appends
  is an initial part of the registry's records, each with its \<open>connectionId\<close>
  overwritten by the id its queue is registered under.
\<close>

theorem getBufferStatusChanges_drains:
  "(mBufferStatusQueues obs = pre @ (cid, q) # post \<and>
    (\<forall>e \<in> set (pre @ [(cid, q)]). fmq_serves (length (fmq_unread (snd e))) (snd e)) \<longrightarrow>
      (\<exists>k. snd (getBufferStatusChanges obs messages) =
         messages @ concat (map tagged pre) @
         map (\<lambda>m. m\<lparr>connectionId := cid\<rparr>) (fmq_unread q) @
         take k (concat (map tagged post))) \<and>
      (distinct (map fst (mBufferStatusQueues obs)) \<longrightarrow>
         filter (\<lambda>m. connectionId m = cid)
           (drop (length messages) (snd (getBufferStatusChanges obs messages))) =
         map (\<lambda>m. m\<lparr>connectionId := cid\<rparr>) (fmq_unread q))) \<and>
   (\<exists>k. snd (getBufferStatusChanges obs messages) =
      messages @ take k (concat (map tagged (mBufferStatusQueues obs))))"
proof (intro conjI impI)
  assume h: "mBufferStatusQueues obs = pre @ (cid, q) # post \<and>
    (\<forall>e \<in> set (pre @ [(cid, q)]). fmq_serves (length (fmq_unread (snd e))) (snd e))"
  then obtain k where k: "snd (getBufferStatusChanges obs messages) =
      messages @ concat (map tagged pre) @ tagged (cid, q) @ take k (concat (map tagged post))"
    using drain_all_through [of pre cid q post messages]
    by (auto simp: getBufferStatusChanges_snd)
  then show "\<exists>k. snd (getBufferStatusChanges obs messages) =
         messages @ concat (map tagged pre) @
         map (\<lambda>m. m\<lparr>connectionId := cid\<rparr>) (fmq_unread q) @
         take k (concat (map tagged post))"
    by (auto simp: tagged_def)
  assume "distinct (map fst (mBufferStatusQueues obs))"
  then have "cid \<notin> fst ` set pre" and "cid \<notin> fst ` set post" using h by auto
  then have "filter (\<lambda>m. connectionId m = cid) (concat (map tagged pre)) = []"
    and "filter (\<lambda>m. connectionId m = cid) (take k (concat (map tagged post))) = []"
    using filter_tagged_others [of cid pre "length (concat (map tagged pre))"]
      filter_tagged_others [of cid post k]
    by simp_all
  then have "filter (\<lambda>m. connectionId m = cid)
      (concat (map tagged pre) @ tagged (cid, q) @ take k (concat (map tagged post))) =
      tagged (cid, q)"
    by (simp add: filter_tagged)
  then show "filter (\<lambda>m. connectionId m = cid)
           (drop (length messages) (snd (getBufferStatusChanges obs messages))) =
         map (\<lambda>m. m\<lparr>connectionId := cid\<rparr>) (fmq_unread q)"
    unfolding k by (simp add: tagged_def)
next
  obtain k where "snd (snd (drain_all (mBufferStatusQueues obs) messages)) =
      messages @ take k (concat (map tagged (mBufferStatusQueues obs)))"
    using drain_all_prefix by blast
  then show "\<exists>k. snd (getBufferStatusChanges obs messages) =
      messages @ take k (concat (map tagged (mBufferStatusQueues obs)))"
    by (auto simp: getBufferStatusChanges_snd)
qed

text \<open>
  Two connections, 3 and 8, whose records were written with other connection ids
  (99, 98 and 97). With the read of connection 8 refused, both records of
  connection 3 are still returned, tagged 3; with no read refused, all three
  records come out in order, tagged 3, 3 and 8.
\<close>

theorem getBufferStatusChanges_drains_witness:
  "snd (getBufferStatusChanges
     \<lparr>mBufferStatusQueues =
        [(3, \<lparr>fmq_isValid = True, fmq_capacity = 4,
              fmq_unread = [release_message 99 1, release_message 98 2], fmq_refusals = []\<rparr>),
         (8, \<lparr>fmq_isValid = True, fmq_capacity = 4,
              fmq_unread = [ack_message 97 5], fmq_refusals = [True]\<rparr>)]\<rparr>
     []) =
   [release_message 3 1, release_message 3 2] \<and>
   snd (getBufferStatusChanges
     \<lparr>mBufferStatusQueues =
        [(3, \<lparr>fmq_isValid = True, fmq_capacity = 4,
              fmq_unread = [release_message 99 1, release_message 98 2], fmq_refusals = []\<rparr>),
         (8, \<lparr>fmq_isValid = True, fmq_capacity = 4,
              fmq_unread = [ack_message 97 5], fmq_refusals = []\<rparr>)]\<rparr>
     []) =
   [release_message 3 1, release_message 3 2, ack_message 8 5]"
  using getBufferStatusChanges_drains
      [of "\<lparr>mBufferStatusQueues =
        [(3, \<lparr>fmq_isValid = True, fmq_capacity = 4,
              fmq_unread = [release_message 99 1, release_message 98 2], fmq_refusals = []\<rparr>),
         (8, \<lparr>fmq_isValid = True, fmq_capacity = 4,
              fmq_unread = [ack_message 97 5], fmq_refusals = [True]\<rparr>)]\<rparr>"
          "[]" 3
          "\<lparr>fmq_isValid = True, fmq_capacity = 4,
              fmq_unread = [release_message 99 1, release_message 98 2], fmq_refusals = []\<rparr>"
          "[(8, \<lparr>fmq_isValid = True, fmq_capacity = 4,
              fmq_unread = [ack_message 97 5], fmq_refusals = [True]\<rparr>)]" "[]"]
    getBufferStatusChanges_drains
      [of "\<lparr>mBufferStatusQueues =
        [(3, \<lparr>fmq_isValid = True, fmq_capacity = 4,
              fmq_unread = [release_message 99 1, release_message 98 2], fmq_refusals = []\<rparr>),
         (8, \<lparr>fmq_isValid = True, fmq_capacity = 4,
              fmq_unread = [ack_message 97 5], fmq_refusals = []\<rparr>)]\<rparr>"
          "[(3, \<lparr>fmq_isValid = True, fmq_capacity = 4,
              fmq_unread = [release_message 99 1, release_message 98 2], fmq_refusals = []\<rparr>)]"
          8
          "\<lparr>fmq_isValid = True, fmq_capacity = 4,
              fmq_unread = [ack_message 97 5], fmq_refusals = []\<rparr>"
          "[]" "[]"]
  by (simp add: getBufferStatusChanges_def availableToRead_def fmq_read_one_def fmq_read_def
      fmq_refused_def fmq_called_def fmq_serves_def tagged_def release_message_def
      ack_message_def)

text \<open>
  Claim C7 as stated fails when a read is refused: one record is waiting in the
  queue of connection 7, the read of it fails, and the call returns with nothing
  appended.
\<close>

theorem getBufferStatusChanges_refused_read:
  "availableToRead (\<lparr>fmq_isValid = True, fmq_capacity = 4,
        fmq_unread = [release_message 7 1], fmq_refusals = [True]\<rparr> :: BufferStatusQueue) = 1 \<and>
   snd (getBufferStatusChanges
     \<lparr>mBufferStatusQueues =
        [(7, \<lparr>fmq_isValid = True, fmq_capacity = 4,
              fmq_unread = [release_message 7 1], fmq_refusals = [True]\<rparr>)]\<rparr>
     []) = []"
  by (simp add: getBufferStatusChanges_def availableToRead_def fmq_read_one_def fmq_read_def
      fmq_refused_def fmq_called_def)

section \<open>The status channel\<close>

text \<open>The constructor leaves a channel invalid, or valid and holding its queue.\<close>

lemma BufferStatusChannel_new_holds_queue:
  "mValid (BufferStatusChannel_new d) \<longrightarrow>
   mBufferStatusQueue (BufferStatusChannel_new d) = Some (fmq_attach d)"
  by (simp add: BufferStatusChannel_new_def Let_def)

lemma release_message_fields:
  "status (release_message cid b) = NOT_USED \<and> bufferId (release_message cid b) = b \<and>
   connectionId (release_message cid b) = cid"
  by (simp add: release_message_def)

lemma release_loop_prefix:
  "n \<le> length pending \<Longrightarrow>
   \<exists>ok q' k. release_loop n cid q pending posted =
        Inr (ok, q', drop k pending, posted @ take k pending) \<and>
      k \<le> n \<and> (ok \<longleftrightarrow> k = n) \<and>
      fmq_unread q' = fmq_unread q @ map (release_message cid) (take k pending) \<and>
      fmq_capacity q' = fmq_capacity q"
proof (induction n arbitrary: q pending posted)
  case 0
  have "release_loop 0 cid q pending posted =
      Inr (True, q, drop 0 pending, posted @ take 0 pending)" by simp
  moreover have "fmq_unread q = fmq_unread q @ map (release_message cid) (take 0 pending)"
    by simp
  ultimately show ?case by blast
next
  case (Suc n)
  then obtain b rest where p: "pending = b # rest" by (cases pending) auto
  obtain ok1 q1 where w: "fmq_write q (release_message cid b) = (ok1, q1)"
    by (cases "fmq_write q (release_message cid b)") auto
  note u = fmq_write_unread [OF w]
  show ?case
  proof (cases ok1)
    case False
    then have "release_loop (Suc n) cid q pending posted =
        Inr (False, q1, drop 0 pending, posted @ take 0 pending)"
      using p w by simp
    moreover have "fmq_unread q1 = fmq_unread q @ map (release_message cid) (take 0 pending)"
      using u False by simp
    ultimately show ?thesis using u by blast
  next
    case True
    from Suc.prems p have "n \<le> length rest" by simp
    from Suc.IH [OF this, of q1 "posted @ [b]"]
    obtain ok q' k where ih:
      "release_loop n cid q1 rest (posted @ [b]) =
         Inr (ok, q', drop k rest, (posted @ [b]) @ take k rest)"
      "k \<le> n" "ok \<longleftrightarrow> k = n"
      "fmq_unread q' = fmq_unread q1 @ map (release_message cid) (take k rest)"
      "fmq_capacity q' = fmq_capacity q1"
      by blast
    have "release_loop (Suc n) cid q pending posted =
        Inr (ok, q', drop (Suc k) pending, posted @ take (Suc k) pending)"
      using p w True ih(1) by simp
    moreover have "fmq_unread q' =
        fmq_unread q @ map (release_message cid) (take (Suc k) pending)"
      using ih(4) u True p by simp
    moreover have "Suc k \<le> Suc n" "ok \<longleftrightarrow> Suc k = Suc n" "fmq_capacity q' = fmq_capacity q"
      using ih u by simp_all
    ultimately show ?thesis by blast
  qed
qed

lemma release_loop_served:
  "n \<le> length pending \<Longrightarrow> n \<le> availableToWrite q \<Longrightarrow> fmq_serves n q \<Longrightarrow>
   release_loop n cid q pending posted =
     Inr (True,
          q\<lparr>fmq_unread := fmq_unread q @ map (release_message cid) (take n pending),
            fmq_refusals := drop n (fmq_refusals q)\<rparr>,
          drop n pending, posted @ take n pending)"
proof (induction n arbitrary: q pending posted)
  case 0
  then show ?case by simp
next
  case (Suc n)
  then obtain b rest where p: "pending = b # rest" by (cases pending) auto
  let ?q1 = "(fmq_called q)\<lparr>fmq_unread := fmq_unread q @ [release_message cid b]\<rparr>"
  from Suc.prems have nr: "\<not> fmq_refused q" and sv: "fmq_serves n (fmq_called q)"
    by (simp_all add: fmq_serves_Suc)
  from Suc.prems have room: "1 \<le> availableToWrite q" by simp
  have w: "fmq_write q (release_message cid b) = (True, ?q1)"
    using nr room by (simp add: fmq_write_def)
  have "n \<le> length rest" using Suc.prems p by simp
  moreover have "n \<le> availableToWrite ?q1"
    using Suc.prems(2) by (simp add: availableToWrite_def fmq_called_def)
  moreover have "fmq_serves n ?q1" using sv by simp
  ultimately have "release_loop n cid ?q1 rest (posted @ [b]) =
     Inr (True,
          ?q1\<lparr>fmq_unread := fmq_unread ?q1 @ map (release_message cid) (take n rest),
            fmq_refusals := drop n (fmq_refusals ?q1)\<rparr>,
          drop n rest, (posted @ [b]) @ take n rest)"
    by (rule Suc.IH)
  then show ?case using p w by (simp add: fmq_called_def drop_Suc)
qed

lemma ack_message_fields:
  "status (ack_message cid i) = INVALIDATION_ACK \<and> bufferId (ack_message cid i) = i \<and>
   connectionId (ack_message cid i) = cid"
  by (simp add: ack_message_def)

lemma postBufferRelease_prefix:
  assumes "mValid ch \<longrightarrow> mBufferStatusQueue ch = Some q"
  shows "\<exists>ch' k. postBufferRelease ch cid pending posted =
            Inr (ch', drop k pending, posted @ take k pending) \<and>
          k \<le> min (availableToWrite q) (length pending) \<and> mValid ch' = mValid ch \<and>
          (if mValid ch
           then \<exists>q'. mBufferStatusQueue ch' = Some q' \<and>
                  fmq_unread q' = fmq_unread q @ map (release_message cid) (take k pending)
           else k = 0 \<and> ch' = ch)"
proof (cases "mValid ch \<and> length pending > 0")
  case False
  then have "postBufferRelease ch cid pending posted =
      Inr (ch, drop 0 pending, posted @ take 0 pending)"
    by (auto simp: postBufferRelease_def)
  moreover have "mValid ch \<Longrightarrow> mBufferStatusQueue ch = Some q \<and>
      fmq_unread q = fmq_unread q @ map (release_message cid) (take 0 pending)"
    using assms by simp
  ultimately show ?thesis by (intro exI [of _ ch] exI [of _ 0]) auto
next
  case True
  then have qs: "mBufferStatusQueue ch = Some q" using assms by simp
  let ?n = "min (availableToWrite q) (length pending)"
  have "?n \<le> length pending" by simp
  from release_loop_prefix [OF this, of cid q posted]
  obtain ok q' k where r:
    "release_loop ?n cid q pending posted = Inr (ok, q', drop k pending, posted @ take k pending)"
    "k \<le> ?n"
    "fmq_unread q' = fmq_unread q @ map (release_message cid) (take k pending)"
    by blast
  have "postBufferRelease ch cid pending posted =
      Inr (ch\<lparr>mBufferStatusQueue := Some q'\<rparr>, drop k pending, posted @ take k pending)"
    using True qs r(1) by (simp add: postBufferRelease_def)
  then show ?thesis using r(2,3) True
    by (intro exI [of _ "ch\<lparr>mBufferStatusQueue := Some q'\<rparr>"] exI [of _ k]) simp
qed

lemma postBufferRelease_served:
  assumes "mValid ch" and "mBufferStatusQueue ch = Some q"
    and "n = min (availableToWrite q) (length pending)" and "fmq_serves n q"
  shows "postBufferRelease ch cid pending posted =
     Inr (ch\<lparr>mBufferStatusQueue :=
               Some (q\<lparr>fmq_unread := fmq_unread q @ map (release_message cid) (take n pending),
                       fmq_refusals := drop n (fmq_refusals q)\<rparr>)\<rparr>,
          drop n pending, posted @ take n pending)"
proof (cases "length pending > 0")
  case False
  then have "n = 0" "pending = []" using assms(3) by simp_all
  moreover have "ch\<lparr>mBufferStatusQueue := Some q\<rparr> = ch" using assms(2) by simp
  ultimately show ?thesis by (simp add: postBufferRelease_def)
next
  case True
  have "release_loop n cid q pending posted =
     Inr (True,
          q\<lparr>fmq_unread := fmq_unread q @ map (release_message cid) (take n pending),
            fmq_refusals := drop n (fmq_refusals q)\<rparr>,
          drop n pending, posted @ take n pending)"
    using assms(3,4) by (intro release_loop_served) simp_all
  then show ?thesis using True assms(1,2,3) by (simp add: postBufferRelease_def)
qed

lemma postBufferStatusMessage_prefix:
  assumes "mValid ch \<longrightarrow> mBufferStatusQueue ch = Some q"
  shows "\<exists>ok ch' k. postBufferStatusMessage ch tid bid st cid targetId pending posted =
            Inr (ok, ch', drop k pending, posted @ take k pending) \<and>
          k \<le> length pending \<and> (ok \<longrightarrow> k = length pending) \<and> mValid ch' = mValid ch \<and>
          (if mValid ch
           then \<exists>q'. mBufferStatusQueue ch' = Some q' \<and>
                  fmq_unread q' = fmq_unread q @ map (release_message cid) (take k pending) @
                    (if ok then [status_message tid bid st cid targetId] else [])
           else k = 0 \<and> \<not> ok \<and> ch' = ch)"
proof (cases "mValid ch \<and> availableToWrite q \<ge> length pending + 1")
  case False
  then have "postBufferStatusMessage ch tid bid st cid targetId pending posted =
      Inr (False, ch, drop 0 pending, posted @ take 0 pending)"
    using assms by (auto simp: postBufferStatusMessage_def)
  moreover have "mValid ch \<Longrightarrow> mBufferStatusQueue ch = Some q \<and>
      fmq_unread q = fmq_unread q @ map (release_message cid) (take 0 pending) @ []"
    using assms by simp
  ultimately show ?thesis
    by (intro exI [of _ False] exI [of _ ch] exI [of _ 0]) auto
next
  case True
  then have qs: "mBufferStatusQueue ch = Some q" using assms by simp
  have "length pending \<le> length pending" by simp
  from release_loop_prefix [OF this, of cid q posted]
  obtain ok q' k where r:
    "release_loop (length pending) cid q pending posted =
       Inr (ok, q', drop k pending, posted @ take k pending)"
    "k \<le> length pending" "ok \<longleftrightarrow> k = length pending"
    "fmq_unread q' = fmq_unread q @ map (release_message cid) (take k pending)"
    by blast
  show ?thesis
  proof (cases ok)
    case False
    then have "postBufferStatusMessage ch tid bid st cid targetId pending posted =
        Inr (False, ch\<lparr>mBufferStatusQueue := Some q'\<rparr>, drop k pending, posted @ take k pending)"
      using True qs r(1) by (simp add: postBufferStatusMessage_def)
    then show ?thesis using r(2,4) True
      by (intro exI [of _ False] exI [of _ "ch\<lparr>mBufferStatusQueue := Some q'\<rparr>"] exI [of _ k])
        simp
  next
    case ok: True
    obtain ok2 q2 where w: "fmq_write q' (status_message tid bid st cid targetId) = (ok2, q2)"
      by (cases "fmq_write q' (status_message tid bid st cid targetId)") auto
    have "postBufferStatusMessage ch tid bid st cid targetId pending posted =
        Inr (ok2, ch\<lparr>mBufferStatusQueue := Some q2\<rparr>, drop k pending, posted @ take k pending)"
      using True qs r(1) ok w by (cases ok2) (simp_all add: postBufferStatusMessage_def)
    moreover have "fmq_unread q2 = fmq_unread q @ map (release_message cid) (take k pending) @
        (if ok2 then [status_message tid bid st cid targetId] else [])"
      using fmq_write_unread [OF w] r(4) by simp
    ultimately show ?thesis using r(2,3) ok True
      by (intro exI [of _ ok2] exI [of _ "ch\<lparr>mBufferStatusQueue := Some q2\<rparr>"] exI [of _ k])
        simp
  qed
qed

text \<open>
  Claim C2. For a channel that is invalid or holds its queue, \<^verbatim>\<open>postBufferRelease\<close>
  and \<^verbatim>\<open>postBufferStatusMessage\<close> return \<open>posted\<close> extended by the first \<open>k\<close> entries
  of \<open>pending\<close>, in order, and \<open>pending\<close> without them; the queue has gained exactly
  the NOT_USED records of those \<open>k\<close> entries (followed by the status message when
  \<^verbatim>\<open>postBufferStatusMessage\<close> returns true), so an entry is moved only when its write
  succeeded. When none of the writes of \<^verbatim>\<open>postBufferRelease\<close> is refused, \<open>k\<close> is
  the minimum of \<^verbatim>\<open>availableToWrite()\<close> and the length of \<open>pending\<close>.
\<close>

theorem pending_posted_fifo:
  assumes "mValid ch \<longrightarrow> mBufferStatusQueue ch = Some q"
  shows "(\<exists>ch' k. postBufferRelease ch cid pending posted =
            Inr (ch', drop k pending, posted @ take k pending) \<and>
          k \<le> min (availableToWrite q) (length pending) \<and> mValid ch' = mValid ch \<and>
          (if mValid ch
           then \<exists>q'. mBufferStatusQueue ch' = Some q' \<and>
                  fmq_unread q' = fmq_unread q @ map (release_message cid) (take k pending)
           else k = 0 \<and> ch' = ch)) \<and>
     (\<exists>ok ch' k. postBufferStatusMessage ch tid bid st cid targetId pending posted =
            Inr (ok, ch', drop k pending, posted @ take k pending) \<and>
          k \<le> length pending \<and> (ok \<longrightarrow> k = length pending) \<and> mValid ch' = mValid ch \<and>
          (if mValid ch
           then \<exists>q'. mBufferStatusQueue ch' = Some q' \<and>
                  fmq_unread q' = fmq_unread q @ map (release_message cid) (take k pending) @
                    (if ok then [status_message tid bid st cid targetId] else [])
           else k = 0 \<and> \<not> ok \<and> ch' = ch)) \<and>
     (mValid ch \<and> fmq_serves (min (availableToWrite q) (length pending)) q \<longrightarrow>
        (\<exists>ch'. postBufferRelease ch cid pending posted =
           Inr (ch', drop (min (availableToWrite q) (length pending)) pending,
                posted @ take (min (availableToWrite q) (length pending)) pending)))"
proof (intro conjI impI)
  show "\<exists>ch' k. postBufferRelease ch cid pending posted =
            Inr (ch', drop k pending, posted @ take k pending) \<and>
          k \<le> min (availableToWrite q) (length pending) \<and> mValid ch' = mValid ch \<and>
          (if mValid ch
           then \<exists>q'. mBufferStatusQueue ch' = Some q' \<and>
                  fmq_unread q' = fmq_unread q @ map (release_message cid) (take k pending)
           else k = 0 \<and> ch' = ch)"
    using assms by (rule postBufferRelease_prefix)
next
  show "\<exists>ok ch' k. postBufferStatusMessage ch tid bid st cid targetId pending posted =
            Inr (ok, ch', drop k pending, posted @ take k pending) \<and>
          k \<le> length pending \<and> (ok \<longrightarrow> k = length pending) \<and> mValid ch' = mValid ch \<and>
          (if mValid ch
           then \<exists>q'. mBufferStatusQueue ch' = Some q' \<and>
                  fmq_unread q' = fmq_unread q @ map (release_message cid) (take k pending) @
                    (if ok then [status_message tid bid st cid targetId] else [])
           else k = 0 \<and> \<not> ok \<and> ch' = ch)"
    using assms by (rule postBufferStatusMessage_prefix)
next
  assume h: "mValid ch \<and> fmq_serves (min (availableToWrite q) (length pending)) q"
  then have "mBufferStatusQueue ch = Some q" using assms by simp
  with h show "\<exists>ch'. postBufferRelease ch cid pending posted =
           Inr (ch', drop (min (availableToWrite q) (length pending)) pending,
                posted @ take (min (availableToWrite q) (length pending)) pending)"
    using postBufferRelease_served [of ch q _ pending cid posted] by blast
qed

text \<open>Room for two of three pending entries: two are moved, the third stays.\<close>

theorem pending_posted_fifo_witness:
  "mValid \<lparr>mValid = True, mBufferStatusQueue = Some
        \<lparr>fmq_isValid = True, fmq_capacity = 2, fmq_unread = [], fmq_refusals = []\<rparr>\<rparr> \<and>
   fmq_serves 2 (\<lparr>fmq_isValid = True, fmq_capacity = 2, fmq_unread = [],
      fmq_refusals = []\<rparr> :: BufferStatusQueue) \<and>
   (\<exists>ch'. postBufferRelease
      \<lparr>mValid = True, mBufferStatusQueue = Some
        \<lparr>fmq_isValid = True, fmq_capacity = 2, fmq_unread = [], fmq_refusals = []\<rparr>\<rparr>
      5 [1, 2, 3] [0] = Inr (ch', [3], [0, 1, 2]))"
  using pending_posted_fifo
      [of "\<lparr>mValid = True, mBufferStatusQueue = Some
            \<lparr>fmq_isValid = True, fmq_capacity = 2, fmq_unread = [], fmq_refusals = []\<rparr>\<rparr>"
          "\<lparr>fmq_isValid = True, fmq_capacity = 2, fmq_unread = [], fmq_refusals = []\<rparr>"
          5 "[1, 2, 3]" "[0]"]
  by (simp add: availableToWrite_def fmq_serves_def)

text \<open>
  Claim C1, amended. On a valid channel with \<open>P\<close> pending entries: when
  \<^verbatim>\<open>availableToWrite()\<close> is at least \<open>P + 1\<close> and none of the \<open>P + 1\<close> writes is refused,
  \<^verbatim>\<open>postBufferStatusMessage\<close> writes the \<open>P\<close> NOT_USED records in the order of
  \<open>pending\<close>, then the status message, moves all of \<open>pending\<close> to the end of \<open>posted\<close>
  and returns true; when \<^verbatim>\<open>availableToWrite()\<close> is below \<open>P + 1\<close> it writes nothing,
  returns false and leaves the channel, \<open>pending\<close> and \<open>posted\<close> as they were.
\<close>

theorem postBufferStatusMessage_all_or_nothing:
  "mValid ch \<and> mBufferStatusQueue ch = Some q \<longrightarrow>
     (availableToWrite q \<ge> length pending + 1 \<and> fmq_serves (length pending + 1) q \<longrightarrow>
        postBufferStatusMessage ch tid bid st cid targetId pending posted =
          Inr (True,
               ch\<lparr>mBufferStatusQueue := Some
                 (q\<lparr>fmq_unread := fmq_unread q @ map (release_message cid) pending @
                        [status_message tid bid st cid targetId],
                    fmq_refusals := drop (length pending + 1) (fmq_refusals q)\<rparr>)\<rparr>,
               [], posted @ pending) \<and>
        (\<forall>b. status (release_message cid b) = NOT_USED \<and>
             bufferId (release_message cid b) = b \<and>
             connectionId (release_message cid b) = cid)) \<and>
     (availableToWrite q < length pending + 1 \<longrightarrow>
        postBufferStatusMessage ch tid bid st cid targetId pending posted =
          Inr (False, ch, pending, posted))"
proof (intro impI conjI allI)
  assume v: "mValid ch \<and> mBufferStatusQueue ch = Some q"
    and h: "availableToWrite q \<ge> length pending + 1 \<and> fmq_serves (length pending + 1) q"
  let ?P = "length pending"
  let ?q1 = "q\<lparr>fmq_unread := fmq_unread q @ map (release_message cid) (take ?P pending),
                fmq_refusals := drop ?P (fmq_refusals q)\<rparr>"
  have "release_loop ?P cid q pending posted =
      Inr (True, ?q1, drop ?P pending, posted @ take ?P pending)"
    using h fmq_serves_less [of ?P 1 q] by (intro release_loop_served) simp_all
  then have loop: "release_loop ?P cid q pending posted = Inr (True, ?q1, [], posted @ pending)"
    by simp
  have nr: "\<not> fmq_refused ?q1" using h fmq_serves_next [of ?P q] by simp
  from h have "length pending + 1 \<le> availableToWrite q" by simp
  then have room: "1 \<le> availableToWrite ?q1" by (simp add: availableToWrite_def)
  have "fmq_write ?q1 (status_message tid bid st cid targetId) =
      (True, (fmq_called ?q1)\<lparr>fmq_unread := fmq_unread ?q1 @
          [status_message tid bid st cid targetId]\<rparr>)"
    using nr room by (simp add: fmq_write_def)
  moreover have "(fmq_called ?q1)\<lparr>fmq_unread := fmq_unread ?q1 @
          [status_message tid bid st cid targetId]\<rparr> =
      q\<lparr>fmq_unread := fmq_unread q @ map (release_message cid) pending @
             [status_message tid bid st cid targetId],
        fmq_refusals := drop (length pending + 1) (fmq_refusals q)\<rparr>"
    by (simp add: fmq_called_def tl_drop drop_Suc)
  ultimately have w: "fmq_write ?q1 (status_message tid bid st cid targetId) =
      (True, q\<lparr>fmq_unread := fmq_unread q @ map (release_message cid) pending @
             [status_message tid bid st cid targetId],
        fmq_refusals := drop (length pending + 1) (fmq_refusals q)\<rparr>)"
    by simp
  show "postBufferStatusMessage ch tid bid st cid targetId pending posted =
          Inr (True,
               ch\<lparr>mBufferStatusQueue := Some
                 (q\<lparr>fmq_unread := fmq_unread q @ map (release_message cid) pending @
                        [status_message tid bid st cid targetId],
                    fmq_refusals := drop (length pending + 1) (fmq_refusals q)\<rparr>)\<rparr>,
               [], posted @ pending)"
    unfolding postBufferStatusMessage_def using v h loop w by (simp add: Let_def)
next
  fix b
  show "status (release_message cid b) = NOT_USED"
    and "bufferId (release_message cid b) = b"
    and "connectionId (release_message cid b) = cid"
    by (simp_all add: release_message_fields)
next
  assume "mValid ch \<and> mBufferStatusQueue ch = Some q"
    and "availableToWrite q < length pending + 1"
  then show "postBufferStatusMessage ch tid bid st cid targetId pending posted =
          Inr (False, ch, pending, posted)"
    by (simp add: postBufferStatusMessage_def)
qed

text \<open>
  Two pending entries: with room for four records both are flushed and the status
  message follows; with room for two the call refuses and nothing moves.
\<close>

theorem postBufferStatusMessage_all_or_nothing_witness:
  "postBufferStatusMessage
     \<lparr>mValid = True, mBufferStatusQueue = Some
        \<lparr>fmq_isValid = True, fmq_capacity = 4, fmq_unread = [], fmq_refusals = []\<rparr>\<rparr>
     1 9 USED 5 6 [7, 8] [3] =
   Inr (True,
        \<lparr>mValid = True, mBufferStatusQueue = Some
           \<lparr>fmq_isValid = True, fmq_capacity = 4,
            fmq_unread = [release_message 5 7, release_message 5 8, status_message 1 9 USED 5 6],
            fmq_refusals = []\<rparr>\<rparr>,
        [], [3, 7, 8]) \<and>
   postBufferStatusMessage
     \<lparr>mValid = True, mBufferStatusQueue = Some
        \<lparr>fmq_isValid = True, fmq_capacity = 2, fmq_unread = [], fmq_refusals = []\<rparr>\<rparr>
     1 9 USED 5 6 [7, 8] [3] =
   Inr (False,
        \<lparr>mValid = True, mBufferStatusQueue = Some
           \<lparr>fmq_isValid = True, fmq_capacity = 2, fmq_unread = [], fmq_refusals = []\<rparr>\<rparr>,
        [7, 8], [3])"
  using postBufferStatusMessage_all_or_nothing
      [of "\<lparr>mValid = True, mBufferStatusQueue = Some
            \<lparr>fmq_isValid = True, fmq_capacity = 4, fmq_unread = [], fmq_refusals = []\<rparr>\<rparr>"
          "\<lparr>fmq_isValid = True, fmq_capacity = 4, fmq_unread = [], fmq_refusals = []\<rparr>"
          "[7, 8]" 1 9 USED 5 6 "[3]"]
    postBufferStatusMessage_all_or_nothing
      [of "\<lparr>mValid = True, mBufferStatusQueue = Some
            \<lparr>fmq_isValid = True, fmq_capacity = 2, fmq_unread = [], fmq_refusals = []\<rparr>\<rparr>"
          "\<lparr>fmq_isValid = True, fmq_capacity = 2, fmq_unread = [], fmq_refusals = []\<rparr>"
          "[7, 8]" 1 9 USED 5 6 "[3]"]
  by (simp add: availableToWrite_def fmq_serves_def)

text \<open>
  Claim C1 as stated fails when a write is refused: four records are free and one
  entry is pending, the release is written and moved, the write of the status
  message fails, and the call returns false.
\<close>

theorem postBufferStatusMessage_refused_write:
  "availableToWrite
     (\<lparr>fmq_isValid = True, fmq_capacity = 4, fmq_unread = [],
       fmq_refusals = [False, True]\<rparr> :: BufferStatusQueue) \<ge> length [7 :: BufferId] + 1 \<and>
   postBufferStatusMessage
     \<lparr>mValid = True, mBufferStatusQueue = Some
        \<lparr>fmq_isValid = True, fmq_capacity = 4, fmq_unread = [],
         fmq_refusals = [False, True]\<rparr>\<rparr>
     1 9 USED 5 6 [7] [] =
   Inr (False,
        \<lparr>mValid = True, mBufferStatusQueue = Some
           \<lparr>fmq_isValid = True, fmq_capacity = 4, fmq_unread = [release_message 5 7],
            fmq_refusals = []\<rparr>\<rparr>,
        [], [7])"
  by (simp add: postBufferStatusMessage_def availableToWrite_def fmq_write_def
      fmq_refused_def fmq_called_def)

text \<open>
  Claim C8. When the channel is valid, the flag is false, a slot is free and the
  write succeeds, \<^verbatim>\<open>postBufferInvalidateAck\<close> appends one INVALIDATION_ACK record, whose
  \<open>bufferId\<close> is the invalidate id and whose \<open>connectionId\<close> is the given one, and sets
  the flag. In every other case (channel invalid, flag set, no slot free, write
  failed) the flag is returned as it was and no record is written.
\<close>

theorem postBufferInvalidateAck_spec:
  "(mValid ch \<and> mBufferStatusQueue ch = Some q \<and> \<not> invalidated \<and> availableToWrite q > 0 \<and>
    fst (fmq_write q (ack_message cid invalidateId)) \<longrightarrow>
      (\<exists>q'. postBufferInvalidateAck ch cid invalidateId invalidated =
           Inr (ch\<lparr>mBufferStatusQueue := Some q'\<rparr>, True) \<and>
         fmq_unread q' = fmq_unread q @ [ack_message cid invalidateId]) \<and>
      status (ack_message cid invalidateId) = INVALIDATION_ACK \<and>
      bufferId (ack_message cid invalidateId) = invalidateId \<and>
      connectionId (ack_message cid invalidateId) = cid) \<and>
   ((mValid ch \<longrightarrow> mBufferStatusQueue ch = Some q) \<and>
    (\<not> mValid ch \<or> invalidated \<or> availableToWrite q = 0 \<or>
     \<not> fst (fmq_write q (ack_message cid invalidateId))) \<longrightarrow>
      (\<exists>ch'. postBufferInvalidateAck ch cid invalidateId invalidated = Inr (ch', invalidated) \<and>
         mValid ch' = mValid ch \<and>
         map_option fmq_unread (mBufferStatusQueue ch') =
           map_option fmq_unread (mBufferStatusQueue ch)))"
proof (intro conjI impI)
  assume h: "mValid ch \<and> mBufferStatusQueue ch = Some q \<and> \<not> invalidated \<and>
    availableToWrite q > 0 \<and> fst (fmq_write q (ack_message cid invalidateId))"
  obtain q' where w: "fmq_write q (ack_message cid invalidateId) = (True, q')"
    using h by (cases "fmq_write q (ack_message cid invalidateId)") auto
  have "postBufferInvalidateAck ch cid invalidateId invalidated =
      Inr (ch\<lparr>mBufferStatusQueue := Some q'\<rparr>, True)"
    using h w by (simp add: postBufferInvalidateAck_def)
  moreover have "fmq_unread q' = fmq_unread q @ [ack_message cid invalidateId]"
    using fmq_write_unread [OF w] by simp
  ultimately show "\<exists>q'. postBufferInvalidateAck ch cid invalidateId invalidated =
           Inr (ch\<lparr>mBufferStatusQueue := Some q'\<rparr>, True) \<and>
         fmq_unread q' = fmq_unread q @ [ack_message cid invalidateId]"
    by blast
next
  show "status (ack_message cid invalidateId) = INVALIDATION_ACK"
    and "bufferId (ack_message cid invalidateId) = invalidateId"
    and "connectionId (ack_message cid invalidateId) = cid"
    by (simp_all add: ack_message_fields)
next
  assume h: "(mValid ch \<longrightarrow> mBufferStatusQueue ch = Some q) \<and>
    (\<not> mValid ch \<or> invalidated \<or> availableToWrite q = 0 \<or>
     \<not> fst (fmq_write q (ack_message cid invalidateId)))"
  show "\<exists>ch'. postBufferInvalidateAck ch cid invalidateId invalidated = Inr (ch', invalidated) \<and>
         mValid ch' = mValid ch \<and>
         map_option fmq_unread (mBufferStatusQueue ch') =
           map_option fmq_unread (mBufferStatusQueue ch)"
  proof (cases "mValid ch \<and> \<not> invalidated \<and> availableToWrite q > 0")
    case False
    then have "postBufferInvalidateAck ch cid invalidateId invalidated = Inr (ch, invalidated)"
      using h by (auto simp: postBufferInvalidateAck_def)
    then show ?thesis by simp
  next
    case True
    then have qs: "mBufferStatusQueue ch = Some q" using h by simp
    from True h have nf: "\<not> fst (fmq_write q (ack_message cid invalidateId))" by auto
    obtain q' where w: "fmq_write q (ack_message cid invalidateId) = (False, q')"
      using nf by (cases "fmq_write q (ack_message cid invalidateId)") auto
    have "postBufferInvalidateAck ch cid invalidateId invalidated =
        Inr (ch\<lparr>mBufferStatusQueue := Some q'\<rparr>, invalidated)"
      using True qs w by (simp add: postBufferInvalidateAck_def)
    moreover have "fmq_unread q' = fmq_unread q" using fmq_write_unread [OF w] by simp
    ultimately show ?thesis using qs by simp
  qed
qed

text \<open>
  An acknowledgement that is written, and one whose write is refused: the flag stays
  false.
\<close>

theorem postBufferInvalidateAck_spec_witness:
  "postBufferInvalidateAck
     \<lparr>mValid = True, mBufferStatusQueue = Some
        \<lparr>fmq_isValid = True, fmq_capacity = 2, fmq_unread = [], fmq_refusals = []\<rparr>\<rparr>
     5 42 False =
   Inr (\<lparr>mValid = True, mBufferStatusQueue = Some
          \<lparr>fmq_isValid = True, fmq_capacity = 2, fmq_unread = [ack_message 5 42],
           fmq_refusals = []\<rparr>\<rparr>, True) \<and>
   postBufferInvalidateAck
     \<lparr>mValid = True, mBufferStatusQueue = Some
        \<lparr>fmq_isValid = True, fmq_capacity = 2, fmq_unread = [], fmq_refusals = [True]\<rparr>\<rparr>
     5 42 False =
   Inr (\<lparr>mValid = True, mBufferStatusQueue = Some
          \<lparr>fmq_isValid = True, fmq_capacity = 2, fmq_unread = [],
           fmq_refusals = []\<rparr>\<rparr>, False)"
  using postBufferInvalidateAck_spec
      [of "\<lparr>mValid = True, mBufferStatusQueue = Some
            \<lparr>fmq_isValid = True, fmq_capacity = 2, fmq_unread = [], fmq_refusals = []\<rparr>\<rparr>"
          "\<lparr>fmq_isValid = True, fmq_capacity = 2, fmq_unread = [], fmq_refusals = []\<rparr>"
          False 5 42]
  by (simp add: postBufferInvalidateAck_def availableToWrite_def fmq_write_def
      fmq_refused_def fmq_called_def)

section \<open>The invalidation listener\<close>





text \<open>
  Claim C5. A listener whose attachment failed is invalid and holds no queue;
  \<^verbatim>\<open>getInvalidations\<close> does not test \<^verbatim>\<open>mValid\<close> and calls \<^verbatim>\<open>availableToRead\<close> through
  the null pointer, where the claim has it return with nothing appended.
\<close>

theorem getInvalidations_invalid_listener:
  "listener_isValid (BufferInvalidationListener_new
      (MQDescriptor (fmq_new False kNumElementsInQueue))) = False \<and>
   getInvalidations (BufferInvalidationListener_new
      (MQDescriptor (fmq_new False kNumElementsInQueue))) messages = Inl NullDereference"
  by (simp add: BufferInvalidationListener_new_def fmq_new_def getInvalidations_def
      listener_isValid_def)

end
